theory Spec2Isabelle
  imports Main "HOL-Library.Multiset"
begin

section \<open>JavaScript string operations used by the effects\<close>

text \<open>
  A JavaScript string is a sequence of UTF-16 code units. The model uses \<open>string\<close>,
  reading each \<open>char\<close> as one code unit below 256; every pattern of the source is
  ASCII, so nothing of the matching depends on the units above.
\<close>

definition code :: "char \<Rightarrow> nat" where
  "code c = of_char c"

text \<open>The white space and line terminators that \<open>String.prototype.trim\<close> strips.\<close>

definition isWhitespace :: "char \<Rightarrow> bool" where
  "isWhitespace c = (code c \<in> {9, 10, 11, 12, 13, 32, 160})"

definition trim :: "string \<Rightarrow> string" where
  "trim s = rev (dropWhile isWhitespace (rev (dropWhile isWhitespace s)))"

definition startsWith :: "string \<Rightarrow> string \<Rightarrow> bool" where
  "startsWith s p = (take (length p) s = p)"

text \<open>
  Matching under the \<open>i\<close> flag compares canonicalised code units; for an ASCII letter
  of a pattern, the units that canonicalise to it are its two cases.
\<close>

definition lower :: "char \<Rightarrow> char" where
  "lower c = (if 65 \<le> code c \<and> code c \<le> 90 then char_of (code c + 32) else c)"

definition startsWith_i :: "string \<Rightarrow> string \<Rightarrow> bool" where
  "startsWith_i s p = (map lower (take (length p) s) = p)"

definition endsWith_i :: "string \<Rightarrow> string \<Rightarrow> bool" where
  "endsWith_i s p = (length p \<le> length s \<and> map lower (drop (length s - length p) s) = p)"

text \<open>The dot of a regular expression matches any code unit but a line terminator.\<close>

definition lineTerminator :: "char \<Rightarrow> bool" where
  "lineTerminator c = (code c \<in> {10, 13})"

text \<open>\<open>/office.d.ts$/i\<close>: eleven units at the end of the input, two of them wildcards.\<close>

definition test_office_d_ts :: "string \<Rightarrow> bool" where
  "test_office_d_ts s =
     (11 \<le> length s \<and>
      (let t = drop (length s - 11) s in
         map lower (take 6 t) = ''office'' \<and>
         \<not> lineTerminator (t ! 6) \<and>
         lower (t ! 7) = CHR ''d'' \<and>
         \<not> lineTerminator (t ! 8) \<and>
         map lower (drop 9 t) = ''ts''))"

text \<open>
  \<open>String.prototype.split\<close> with a non-empty separator: the pieces between
  the occurrences of the separator, found from left to right without overlap. The
  third argument holds the current piece, reversed. With the empty separator the
  string is cut into its code units.
\<close>

fun split_acc :: "string \<Rightarrow> string \<Rightarrow> string \<Rightarrow> string list" where
  "split_acc sep [] cur = [rev cur]"
| "split_acc sep (c # cs) cur =
     (if take (length sep) (c # cs) = sep
      then rev cur # split_acc sep (drop (length sep - 1) cs) []
      else split_acc sep cs (c # cur))"

definition split :: "string \<Rightarrow> string \<Rightarrow> string list" where
  "split s sep = (if sep = [] then map (\<lambda>c. [c]) s else split_acc sep s [])"

text \<open>
  Indexing an array out of range gives \<open>undefined\<close>, which a template literal prints
  as the text \<open>undefined\<close>.
\<close>

definition at_template :: "string list \<Rightarrow> nat \<Rightarrow> string" where
  "at_template xs i = (if i < length xs then xs ! i else ''undefined'')"

section \<open>Reference resolver: \<open>_parse\<close>\<close>

text \<open>
  The function mapped over the libraries by \<open>_parse\<close> (monaco.ts, lines 101 to 137);
  \<open>None\<close> is \<open>null\<close>. In the \<open>dt~\<close> branch the source compares \<open>library\<close>, not
  \<open>libName\<close>, with \<open>office-js\<close>, and so does the model.
\<close>

definition parse_library :: "string \<Rightarrow> string \<Rightarrow> string option" where
  "parse_library tabName library0 =
     (let library = trim library0 in
      if startsWith library ''@types'' then
        (if tabName = ''customFunctions'' \<and> startsWith library ''@types/office-js''
         then None
         else Some (''https://unpkg.com/'' @ library @ ''/index.d.ts''))
      else if startsWith library ''dt~'' then
        (let libName = at_template (split library ''dt~'') 1 in
         if tabName = ''customFunctions'' \<and> library = ''office-js''
         then None
         else Some (''https://raw.githubusercontent.com/DefinitelyTyped/DefinitelyTyped/master/types/''
                      @ libName @ ''/index.d.ts''))
      else if endsWith_i library ''.d.ts'' then
        (if tabName = ''customFunctions'' \<and> test_office_d_ts library
         then None
         else if startsWith_i library ''http:'' \<or> startsWith_i library ''https:''
         then Some library
         else Some (''https://unpkg.com/'' @ library))
      else None)"

definition parse :: "string list \<Rightarrow> string \<Rightarrow> string option list" where
  "parse libraries tabName = map (parse_library tabName) libraries"

section \<open>Adapter selection: \<open>_determineSource\<close>\<close>

datatype source = javascriptDefaults | typescriptDefaults

definition determineSource :: "string \<Rightarrow> source" where
  "determineSource language =
     (if language = ''javascript'' then javascriptDefaults else typescriptDefaults)"

section \<open>Collaborators and state\<close>

record IIntellisenseFile =
  file_url :: string
  content :: string

record IDisposableFile =
  url :: string
  disposable :: nat

datatype exception =
    InvalidTabName
  | RequestFailed string
  | KeyAlreadyExists string

datatype action =
    AddIntellisenseAction string string
  | UpdateIntellisenseSuccessAction
  | ReportErrorAction string exception

text \<open>
  The calls made on the collaborators, in the order they are made:
  \<open>storage.intellisenseCache.contains(url)\<close>, \<open>this._request.get(url, ...)\<close>,
  \<open>source.addExtraLib(content, url)\<close> with the disposable it returns,
  \<open>disposable.dispose()\<close>, and the actions that the two effects emit.
\<close>

datatype event =
    Lookup string
  | Fetch string
  | Register source string string nat
  | Dispose nat
  | Emit action

subsection \<open>The dictionary of the helper library\<close>

text \<open>
  \<open>Dictionary\<close> comes from the package \<open>@microsoft/office-js-helpers\<close>, which is not
  part of the repository. It is a keyed store that keeps insertion order: an
  association list. What \<open>add\<close> does with a key that is already present is taken as a
  parameter: it throws, or it replaces the value.
\<close>

type_synonym 'a dictionary = "(string \<times> 'a) list"

datatype add_mode = ThrowOnExisting | OverwriteExisting

definition dict_get :: "'a dictionary \<Rightarrow> string \<Rightarrow> 'a option" where
  "dict_get d key = map_of d key"

definition dict_values :: "'a dictionary \<Rightarrow> 'a list" where
  "dict_values d = map snd d"

definition dict_remove :: "'a dictionary \<Rightarrow> string \<Rightarrow> 'a dictionary" where
  "dict_remove d key = filter (\<lambda>kv. fst kv \<noteq> key) d"

definition dict_add :: "add_mode \<Rightarrow> 'a dictionary \<Rightarrow> string \<Rightarrow> 'a \<Rightarrow> exception + 'a dictionary" where
  "dict_add mode d key v =
     (case map_of d key of
        None \<Rightarrow> Inr (d @ [(key, v)])
      | Some _ \<Rightarrow>
          (case mode of
             ThrowOnExisting \<Rightarrow> Inl (KeyAlreadyExists key)
           | OverwriteExisting \<Rightarrow> Inr (map (\<lambda>kv. if fst kv = key then (key, v) else kv) d)))"

subsection \<open>The state of the effects and of what they talk to\<close>

text \<open>
  \<open>intellisenseCache\<close> is \<open>storage.intellisenseCache\<close>, \<open>current\<close> is \<open>this._current\<close>,
  \<open>inflight\<close> holds the requests of \<open>_get\<close> that wait for their response (url and
  language of the add action), \<open>disposables\<close> counts the disposables handed out by
  \<open>addExtraLib\<close>, \<open>trace\<close> is the history of the calls.

  The store behind \<open>storage.intellisenseCache\<close> is declared in the helpers, whose
  code is not among the sources. The effects use three operations of it,
  \<open>contains\<close>, \<open>get\<close> and \<open>insert\<close>, the last of which returns the value it has
  stored: a map from urls to contents.
\<close>

record state =
  intellisenseCache :: "string \<rightharpoonup> string"
  current :: "IDisposableFile dictionary"
  inflight :: "(string \<times> string) list"
  disposables :: nat
  trace :: "event list"

text \<open>
  \<open>origin\<close> is \<open>location.origin\<close>; \<open>officeJs\<close> is the result of
  \<open>getVersionedPackageUrl(location.origin, '@microsoft/office-js', 'office.d.ts')\<close>, a
  helper whose code is not among the sources; \<open>addMode\<close> is the parameter of the
  dictionary.
\<close>

record env =
  origin :: string
  officeJs :: string
  addMode :: add_mode

record payload =
  libraries :: "string list"
  language :: string
  tabName :: string

definition log :: "event list \<Rightarrow> state \<Rightarrow> state" where
  "log es st = st\<lparr>trace := trace st @ es\<rparr>"

section \<open>The effect \<open>updateIntellisense$\<close>\<close>

text \<open>Lines 38 to 48: the implicit references of the tab, or the exception.\<close>

definition additionalLibraries :: "env \<Rightarrow> string \<Rightarrow> exception + string list" where
  "additionalLibraries e tab =
     (if tab = ''script'' then Inr [origin e @ ''/libs/auth-helpers.d.ts'']
      else if tab = ''customFunctions''
      then Inr [origin e @ ''/libs/custom-functions.d.ts'', officeJs e]
      else Inl InvalidTabName)"

text \<open>Lines 50 to 52; the filter keeps \<open>url && url.trim() !== ''\<close>.\<close>

definition keep :: "string option \<Rightarrow> string list" where
  "keep u = (case u of None \<Rightarrow> [] | Some s \<Rightarrow> if s \<noteq> [] \<and> trim s \<noteq> [] then [s] else [])"

definition urlsToInclude :: "string list \<Rightarrow> string \<Rightarrow> string list \<Rightarrow> string list" where
  "urlsToInclude libs tab additional = concat (map keep (parse libs tab @ map Some additional))"

text \<open>Lines 54 to 62. The source computes this list and does not use it afterwards.\<close>

definition urlsStillInNeedOfFetching :: "state \<Rightarrow> string list \<Rightarrow> string list" where
  "urlsStillInNeedOfFetching st urls = filter (\<lambda>file. dict_get (current st) file = None) urls"

text \<open>
  Lines 64 to 70. Every value of \<open>this._current\<close> was added under its own url
  (\<open>reachable_consistent\<close> below), so the key that \<open>remove\<close> is given is present.
\<close>

definition filesThatCanBeDisposed :: "state \<Rightarrow> string list \<Rightarrow> IDisposableFile list" where
  "filesThatCanBeDisposed st urls = filter (\<lambda>file. url file \<notin> set urls) (dict_values (current st))"

definition disposeFile :: "state \<Rightarrow> IDisposableFile \<Rightarrow> state" where
  "disposeFile st unusedFile =
     (log [Dispose (disposable unusedFile)] st)\<lparr>current := dict_remove (current st) (url unusedFile)\<rparr>"

definition disposeUnused :: "state \<Rightarrow> string list \<Rightarrow> state" where
  "disposeUnused st urls = foldl disposeFile st (filesThatCanBeDisposed st urls)"

text \<open>
  The callback of the \<open>map\<close> (lines 37 to 73): \<open>Inl\<close> is the exception thrown, \<open>Inr\<close>
  the state left behind with the files and the language returned.
\<close>

definition updateIntellisense_map :: "env \<Rightarrow> state \<Rightarrow> payload \<Rightarrow> exception + (state \<times> string list \<times> string)" where
  "updateIntellisense_map e st p =
     (case additionalLibraries e (tabName p) of
        Inl exception \<Rightarrow> Inl exception
      | Inr additional \<Rightarrow>
          (let urls = urlsToInclude (libraries p) (tabName p) additional;
               stillInNeed = urlsStillInNeedOfFetching st urls
           in Inr (disposeUnused st urls, urls, language p)))"

text \<open>The effect (lines 34 to 75): the actions it emits for one action received.\<close>

definition updateIntellisense :: "env \<Rightarrow> state \<Rightarrow> payload \<Rightarrow> state \<times> action list" where
  "updateIntellisense e st p =
     (case updateIntellisense_map e st p of
        Inl exception \<Rightarrow> (st, [ReportErrorAction ''intellisenseUpdateError'' exception])
      | Inr (st1, files, lang) \<Rightarrow> (st1, map (\<lambda>file. AddIntellisenseAction file lang) files))"

section \<open>Content cache: \<open>_get\<close>\<close>

text \<open>
  The observable that \<open>_get\<close> returns (lines 140 to 150): \<open>Observable.of\<close> a file taken
  from the cache, or the request for the url, which is sent when \<open>mergeMap\<close>
  subscribes and answered later.
\<close>

datatype get_observable = Of IIntellisenseFile | Request string

definition get :: "state \<Rightarrow> string \<Rightarrow> state \<times> get_observable" where
  "get st u =
     (case intellisenseCache st u of
        Some c \<Rightarrow> (log [Lookup u] st, Of \<lparr>file_url = u, content = c\<rparr>)
      | None \<Rightarrow> (log [Lookup u, Fetch u] st, Request u))"

text \<open>
  The two \<open>map\<close>s applied to the text of a response (lines 147 and 148): \<open>insert\<close>
  stores the text under the url and returns it.
\<close>

definition get_response :: "state \<Rightarrow> string \<Rightarrow> string \<Rightarrow> state \<times> IIntellisenseFile" where
  "get_response st u c =
     (st\<lparr>intellisenseCache := (intellisenseCache st)(u \<mapsto> c)\<rparr>, \<lparr>file_url = u, content = c\<rparr>)"

text \<open>
  \<open>_get\<close> with its request answered at once by \<open>r\<close>, where \<open>None\<close> is a failed request:
  what a subscriber of the observable receives, a file or the error.
\<close>

definition get_settled :: "state \<Rightarrow> string \<Rightarrow> string option \<Rightarrow> state \<times> (exception + IIntellisenseFile)" where
  "get_settled st u r =
     (case get st u of
        (st1, Of file) \<Rightarrow> (st1, Inr file)
      | (st1, Request u1) \<Rightarrow>
          (case r of
             None \<Rightarrow> (st1, Inl (RequestFailed u1))
           | Some c \<Rightarrow> (case get_response st1 u1 c of (st2, file) \<Rightarrow> (st2, Inr file))))"

section \<open>The effect \<open>addIntellisense$\<close>\<close>

text \<open>
  The callback of the \<open>map\<close> in \<open>_addIntellisense\<close> (lines 91 to 96): \<open>addExtraLib\<close>
  registers the content and returns a new disposable, then the file is added to
  \<open>this._current\<close>; \<open>Inl\<close> is the exception that \<open>add\<close> throws.
\<close>

definition addExtraLib :: "state \<Rightarrow> source \<Rightarrow> string \<Rightarrow> string \<Rightarrow> state \<times> nat" where
  "addExtraLib st src c u =
     ((log [Register src c u (disposables st)] st)\<lparr>disposables := Suc (disposables st)\<rparr>,
      disposables st)"

definition register :: "env \<Rightarrow> state \<Rightarrow> source \<Rightarrow> IIntellisenseFile \<Rightarrow> state \<times> (exception + IDisposableFile)" where
  "register e st src file =
     (case addExtraLib st src (content file) (file_url file) of
        (st1, d) \<Rightarrow>
          (let intellisense = \<lparr>url = file_url file, disposable = d\<rparr> in
           case dict_add (addMode e) (current st1) (file_url file) intellisense of
             Inl exception \<Rightarrow> (st1, Inl exception)
           | Inr c \<Rightarrow> (st1\<lparr>current := c\<rparr>, Inr intellisense)))"

text \<open>
  The \<open>catch\<close> of \<open>_addIntellisense\<close> (line 97) turns an exception into the value
  \<open>ReportErrorAction\<close>; the \<open>map\<close> of the effect (line 81) then replaces whatever
  value arrives by \<open>UpdateIntellisenseSuccessAction\<close>.
\<close>

definition caught :: "exception + IDisposableFile \<Rightarrow> action + IDisposableFile" where
  "caught r = (case r of
                 Inl exception \<Rightarrow> Inl (ReportErrorAction ''intellisenseLoadError'' exception)
               | Inr intellisense \<Rightarrow> Inr intellisense)"

definition addIntellisense_map :: "action + IDisposableFile \<Rightarrow> action" where
  "addIntellisense_map v = UpdateIntellisenseSuccessAction"

definition emit :: "state \<Rightarrow> exception + IDisposableFile \<Rightarrow> state" where
  "emit st r = log [Emit (addIntellisense_map (caught r))] st"

definition finish :: "env \<Rightarrow> state \<Rightarrow> source \<Rightarrow> IIntellisenseFile \<Rightarrow> state" where
  "finish e st src file = (case register e st src file of (st1, r) \<Rightarrow> emit st1 r)"

text \<open>
  One add action received by the effect (lines 78 to 98), up to the point where it
  has a file or waits for the network. \<open>MonacoService.current\<close> is taken to be
  resolved.
\<close>

definition addIntellisense :: "env \<Rightarrow> state \<Rightarrow> string \<Rightarrow> string \<Rightarrow> state" where
  "addIntellisense e st u lang =
     (let src = determineSource lang in
      case get st u of
        (st1, Of file) \<Rightarrow> finish e st1 src file
      | (st1, Request u1) \<Rightarrow> st1\<lparr>inflight := inflight st1 @ [(u1, lang)]\<rparr>)"

text \<open>
  The answer \<open>r\<close> to the request at position \<open>i\<close> of those in flight arrives: a text,
  or \<open>None\<close> for a failure. The rest of \<open>_get\<close> and \<open>_addIntellisense\<close> runs.
\<close>

definition without :: "nat \<Rightarrow> 'a list \<Rightarrow> 'a list" where
  "without i xs = take i xs @ drop (Suc i) xs"

definition respond :: "env \<Rightarrow> state \<Rightarrow> nat \<times> string option \<Rightarrow> state" where
  "respond e st ir =
     (case ir of (i, r) \<Rightarrow>
        if i < length (inflight st) then
          (case inflight st ! i of (u, lang) \<Rightarrow>
             (let st1 = st\<lparr>inflight := without i (inflight st)\<rparr> in
              case r of
                None \<Rightarrow> emit st1 (Inl (RequestFailed u))
              | Some c \<Rightarrow>
                  (case get_response st1 u c of
                     (st2, file) \<Rightarrow> finish e st2 (determineSource lang) file)))
        else st)"

section \<open>A reconciliation pass\<close>

text \<open>
  The add effect receives the actions of type \<open>ADD_INTELLISENSE\<close> only. One action of
  type \<open>UPDATE_INTELLISENSE\<close> runs the update effect, and each action it emits goes
  back through the store to the add effect. The responses arrive afterwards, in any
  order: a schedule lists which request in flight is answered next, and how.

  Two things of the source are left out. \<open>AI.trackEvent\<close> reports telemetry and
  touches nothing else. An observable is completed once its \<open>catch\<close> has fired, so
  the update effect handles no action after one with an invalid tab name; the model
  lets later actions through, and the states it reaches include those of the source.
\<close>

definition addIntellisense_action :: "env \<Rightarrow> state \<Rightarrow> action \<Rightarrow> state" where
  "addIntellisense_action e st a =
     (case a of AddIntellisenseAction u lang \<Rightarrow> addIntellisense e st u lang | _ \<Rightarrow> st)"

definition dispatch :: "env \<Rightarrow> state \<Rightarrow> payload \<Rightarrow> state" where
  "dispatch e st p =
     (case updateIntellisense e st p of
        (st1, actions) \<Rightarrow> foldl (addIntellisense_action e) (log (map Emit actions) st1) actions)"

definition settle :: "env \<Rightarrow> state \<Rightarrow> (nat \<times> string option) list \<Rightarrow> state" where
  "settle e st schedule = foldl (respond e) st schedule"

text \<open>The state after the constructor, with whatever the cache holds.\<close>

definition initial :: "(string \<rightharpoonup> string) \<Rightarrow> state" where
  "initial cache =
     \<lparr>intellisenseCache = cache, current = [], inflight = [], disposables = 0, trace = []\<rparr>"

subsection \<open>Reading a trace\<close>

fun fetches :: "event list \<Rightarrow> string list" where
  "fetches [] = []"
| "fetches (Fetch u # es) = u # fetches es"
| "fetches (_ # es) = fetches es"

fun registers :: "event list \<Rightarrow> string list" where
  "registers [] = []"
| "registers (Register src c u d # es) = u # registers es"
| "registers (_ # es) = registers es"

fun disposes :: "event list \<Rightarrow> nat list" where
  "disposes [] = []"
| "disposes (Dispose d # es) = d # disposes es"
| "disposes (_ # es) = disposes es"

fun lookups :: "event list \<Rightarrow> string list" where
  "lookups [] = []"
| "lookups (Lookup u # es) = u # lookups es"
| "lookups (_ # es) = lookups es"

fun emitted :: "event list \<Rightarrow> action list" where
  "emitted [] = []"
| "emitted (Emit a # es) = a # emitted es"
| "emitted (_ # es) = emitted es"

text \<open>The contents registered under a url, in the order of the calls.\<close>

fun contents_of :: "string \<Rightarrow> event list \<Rightarrow> string list" where
  "contents_of u [] = []"
| "contents_of u (Register src c v d # es) = (if v = u then c # contents_of u es else contents_of u es)"
| "contents_of u (_ # es) = contents_of u es"

text \<open>The events of \<open>st'\<close> that came after those of \<open>st\<close>.\<close>

definition since :: "state \<Rightarrow> state \<Rightarrow> event list" where
  "since st st' = drop (length (trace st)) (trace st')"

definition keys :: "'a dictionary \<Rightarrow> string list" where
  "keys d = map fst d"

subsection \<open>Histories\<close>

text \<open>
  What can happen to the effects: an update action is dispatched, or a request in
  flight is answered. The states they can be in are those reached from the state
  after the constructor.
\<close>

datatype input = Update payload | Response nat "string option"

fun step :: "env \<Rightarrow> state \<Rightarrow> input \<Rightarrow> state" where
  "step e st (Update p) = dispatch e st p"
| "step e st (Response i r) = respond e st (i, r)"

definition run :: "env \<Rightarrow> state \<Rightarrow> input list \<Rightarrow> state" where
  "run e st inputs = foldl (step e) st inputs"

inductive reachable :: "env \<Rightarrow> state \<Rightarrow> bool" for e :: env where
  start: "reachable e (initial cache)"
| update: "reachable e st \<Longrightarrow> reachable e (dispatch e st p)"
| response: "reachable e st \<Longrightarrow> reachable e (respond e st ir)"

text \<open>The locators that a payload asks for, when its tab is one of the two.\<close>

definition desired :: "env \<Rightarrow> payload \<Rightarrow> string list" where
  "desired e p =
     (case additionalLibraries e (tabName p) of
        Inl exception \<Rightarrow> []
      | Inr additional \<Rightarrow> urlsToInclude (libraries p) (tabName p) additional)"

definition valid_tab :: "payload \<Rightarrow> bool" where
  "valid_tab p = (tabName p = ''script'' \<or> tabName p = ''customFunctions'')"

subsection \<open>Auxiliary notions\<close>

text \<open>The add effect run on one add action for each of the urls, in their order.\<close>

definition addAll :: "env \<Rightarrow> state \<Rightarrow> string list \<Rightarrow> string \<Rightarrow> state" where
  "addAll e st urls lang = foldl (\<lambda>s u. addIntellisense e s u lang) st urls"

text \<open>
  The invariant of \<open>this._current\<close>: no key twice, and every file under its own url.
\<close>

definition consistent :: "IDisposableFile dictionary \<Rightarrow> bool" where
  "consistent d = (distinct (keys d) \<and> list_all (\<lambda>kv. url (snd kv) = fst kv) d)"

text \<open>A schedule in which every request is answered with a text.\<close>

definition all_succeed :: "(nat \<times> string option) list \<Rightarrow> bool" where
  "all_succeed schedule = list_all (\<lambda>ir. snd ir \<noteq> None) schedule"

text \<open>
  The action with which \<open>_addIntellisense\<close> reports a failure, and the states in
  whose history no such action was emitted.
\<close>

definition load_error :: "action \<Rightarrow> bool" where
  "load_error a = (case a of ReportErrorAction m x \<Rightarrow> m = ''intellisenseLoadError'' | _ \<Rightarrow> False)"

definition no_load_error :: "state \<Rightarrow> bool" where
  "no_load_error st = list_all (\<lambda>a. \<not> load_error a) (emitted (trace st))"

subsection \<open>Concrete inputs\<close>

definition env0 :: env where
  "env0 = \<lparr>origin = ''https://o'', officeJs = ''https://o/libs/office.d.ts'', addMode = ThrowOnExisting\<rparr>"

definition html_payload :: payload where
  "html_payload = \<lparr>libraries = [''@types/jquery''], language = ''typescript'', tabName = ''html''\<rparr>"

definition script_payload :: payload where
  "script_payload = \<lparr>libraries = [''@types/jquery''], language = ''typescript'', tabName = ''script''\<rparr>"

definition functions_payload :: payload where
  "functions_payload = \<lparr>libraries = [''dt~lodash''], language = ''javascript'', tabName = ''customFunctions''\<rparr>"

definition answers2 :: "(nat \<times> string option) list" where
  "answers2 = [(0, Some ''A''), (0, Some ''B'')]"

definition answers3 :: "(nat \<times> string option) list" where
  "answers3 = [(2, Some ''C''), (0, Some ''D''), (0, Some ''E'')]"

text \<open>Two passes with these inputs, from the state after the constructor.\<close>

definition after_script :: state where
  "after_script = settle env0 (dispatch env0 (initial Map.empty) script_payload) answers2"

definition after_functions :: state where
  "after_functions = settle env0 (dispatch env0 after_script functions_payload) answers3"

definition jquery_url :: string where
  "jquery_url = ''https://unpkg.com/@types/jquery/index.d.ts''"

definition helpers_url :: string where
  "helpers_url = ''https://o/libs/auth-helpers.d.ts''"

text \<open>The first request of the script pass fails, the second is answered.\<close>

definition failing_answers :: "(nat \<times> string option) list" where
  "failing_answers = [(0, None), (0, Some ''B'')]"

text \<open>
  From the state after the script pass: the custom functions pass, its three
  responses, and the script pass again.
\<close>

definition away_and_back :: "input list" where
  "away_and_back =
     [Update functions_payload, Response 2 (Some ''C''), Response 0 (Some ''D''),
      Response 0 (Some ''E''), Update script_payload]"

text \<open>A library listed twice, and one payload dispatched twice before any response.\<close>

definition twice_payload :: payload where
  "twice_payload = \<lparr>libraries = [''a.d.ts'', ''a.d.ts''], language = ''typescript'', tabName = ''script''\<rparr>"

definition two_calls :: state where
  "two_calls = dispatch env0 (dispatch env0 (initial Map.empty) script_payload) script_payload"

definition answers4 :: "(nat \<times> string option) list" where
  "answers4 = [(0, Some ''A''), (0, Some ''B''), (0, Some ''A''), (0, Some ''B'')]"

text \<open>The two requests for the same url of \<open>two_calls\<close> answered with different texts.\<close>

definition answers_differ :: "(nat \<times> string option) list" where
  "answers_differ = [(0, Some ''A''), (0, Some ''B''), (0, Some ''A''), (0, Some ''B2'')]"

section \<open>Properties of the resolver\<close>

text \<open>
  C6. A reference that, once trimmed, starts with \<open>@types\<close> resolves on the tab
  \<open>script\<close> to \<open>https://unpkg.com/<reference>/index.d.ts\<close>; on the tab
  \<open>customFunctions\<close> it resolves to null exactly when it starts with
  \<open>@types/office-js\<close>, and to the same url otherwise.
\<close>

theorem parse_types_package:
  assumes "startsWith (trim library) ''@types''"
  shows "parse_library ''script'' library = Some (''https://unpkg.com/'' @ trim library @ ''/index.d.ts'')
       \<and> (parse_library ''customFunctions'' library = None
            \<longleftrightarrow> startsWith (trim library) ''@types/office-js'')
       \<and> (\<not> startsWith (trim library) ''@types/office-js'' \<longrightarrow>
            parse_library ''customFunctions'' library = parse_library ''script'' library)"
  using assms by (simp add: parse_library_def Let_def)

theorem parse_types_package_witness:
  "startsWith (trim ''@types/office-js'') ''@types''
   \<and> parse_library ''script'' ''@types/office-js'' = Some ''https://unpkg.com/@types/office-js/index.d.ts''
   \<and> parse_library ''customFunctions'' ''@types/office-js'' = None
   \<and> parse_library ''customFunctions'' '' @types/jquery '' = Some ''https://unpkg.com/@types/jquery/index.d.ts''"
proof -
  have t1: "trim ''@types/office-js'' = ''@types/office-js''"
    by (simp add: trim_def isWhitespace_def code_def)
  have t2: "trim '' @types/jquery '' = ''@types/jquery''"
    by (simp add: trim_def isWhitespace_def code_def)
  have h1: "startsWith (trim ''@types/office-js'') ''@types''"
    by (simp add: t1 startsWith_def)
  have h2: "startsWith (trim '' @types/jquery '') ''@types''"
    by (simp add: t2 startsWith_def)
  show ?thesis
    using parse_types_package [OF h1] parse_types_package [OF h2] h1
    by (simp add: t1 t2 startsWith_def)
qed

text \<open>
  C2. The claim wants null for the reference \<open>dt~office-js\<close> on the tab
  \<open>customFunctions\<close>. The source compares the whole reference, which starts with
  \<open>dt~\<close>, with \<open>office-js\<close>; the comparison never holds and the url of the package in
  DefinitelyTyped is returned.
\<close>

theorem parse_dt_office_js_customFunctions:
  "parse_library ''customFunctions'' ''dt~office-js'' =
     Some ''https://raw.githubusercontent.com/DefinitelyTyped/DefinitelyTyped/master/types/office-js/index.d.ts''"
  by (simp add: parse_library_def trim_def isWhitespace_def code_def startsWith_def split_def at_template_def)

text \<open>No reference of the form \<open>dt~<name>\<close> resolves to null, on either tab.\<close>

lemma parse_dt_never_null:
  assumes "startsWith (trim library) ''dt~''"
  shows "parse_library tab library \<noteq> None"
proof -
  obtain s where s: "s = trim library" by simp
  from assms have t: "take 3 s = ''dt~''" by (simp add: startsWith_def s numeral_3_eq_3)
  then have "s \<noteq> ''office-js''" by auto
  moreover have "take 6 s \<noteq> ''@types''"
  proof
    assume "take 6 s = ''@types''"
    then have "take 3 (take 6 s) = take 3 ''@types''" by simp
    with t show False by simp
  qed
  then have "\<not> startsWith s ''@types''" by (simp add: startsWith_def eval_nat_numeral)
  ultimately show ?thesis using assms
    by (simp add: parse_library_def Let_def s [symmetric])
qed

section \<open>Properties of the adapter selection\<close>

text \<open>
  C10. \<open>_determineSource\<close> is total: \<open>javascript\<close> selects \<open>javascriptDefaults\<close>, and
  every other language selects \<open>typescriptDefaults\<close>.
\<close>

theorem determineSource_total:
  "determineSource ''javascript'' = javascriptDefaults
   \<and> (determineSource lang = javascriptDefaults \<longleftrightarrow> lang = ''javascript'')
   \<and> (determineSource lang = typescriptDefaults \<longleftrightarrow> lang \<noteq> ''javascript'')"
  by (simp add: determineSource_def)

section \<open>Properties of the effects\<close>

lemma log_simps [simp]:
  "trace (log es st) = trace st @ es"
  "intellisenseCache (log es st) = intellisenseCache st"
  "current (log es st) = current st"
  "inflight (log es st) = inflight st"
  "disposables (log es st) = disposables st"
  by (simp_all add: log_def)

subsection \<open>Traces and the dictionary\<close>

lemma fetches_append [simp]: "fetches (xs @ ys) = fetches xs @ fetches ys"
  by (induction xs rule: fetches.induct) simp_all

lemma registers_append [simp]: "registers (xs @ ys) = registers xs @ registers ys"
  by (induction xs rule: registers.induct) simp_all

lemma disposes_append [simp]: "disposes (xs @ ys) = disposes xs @ disposes ys"
  by (induction xs rule: disposes.induct) simp_all

lemma lookups_append [simp]: "lookups (xs @ ys) = lookups xs @ lookups ys"
  by (induction xs rule: lookups.induct) simp_all

lemma emitted_append [simp]: "emitted (xs @ ys) = emitted xs @ emitted ys"
  by (induction xs rule: emitted.induct) simp_all

lemma map_of_keys: "(map_of d k = None) = (k \<notin> set (keys d))"
  by (simp add: keys_def map_of_eq_None_iff)

lemma keys_overwrite: "keys (map (\<lambda>kv. if fst kv = k then (k, v) else kv) d) = keys d"
  by (induction d) (auto simp: keys_def)

lemma keys_append [simp]: "keys (d @ d') = keys d @ keys d'"
  by (simp add: keys_def)

lemma keys_single [simp]: "keys [(k, v)] = [k]"
  by (simp add: keys_def)

lemma dict_add_keys:
  assumes "dict_add mode d k v = Inr d'"
  shows "set (keys d') = insert k (set (keys d))"
proof (cases "map_of d k")
  case None
  with assms have "d' = d @ [(k, v)]" by (simp add: dict_add_def)
  then show ?thesis by simp
next
  case (Some x)
  then have k: "k \<in> set (keys d)" using map_of_keys [of d k] by simp
  from Some assms have "d' = map (\<lambda>kv. if fst kv = k then (k, v) else kv) d"
    by (cases mode) (simp_all add: dict_add_def)
  then have "keys d' = keys d" by (simp add: keys_overwrite)
  with k show ?thesis by auto
qed

lemma dict_add_throws_keys:
  assumes "dict_add mode d k v = Inl x"
  shows "k \<in> set (keys d)"
proof (cases "map_of d k")
  case None
  with assms show ?thesis by (simp add: dict_add_def)
next
  case (Some y)
  then show ?thesis using map_of_keys [of d k] by simp
qed

lemma overwrite_consistent:
  "list_all (\<lambda>kv. url (snd kv) = fst kv) d \<Longrightarrow> url v = k \<Longrightarrow>
   list_all (\<lambda>kv. url (snd kv) = fst kv) (map (\<lambda>kv. if fst kv = k then (k, v) else kv) d)"
  by (induction d) auto

lemma dict_add_consistent:
  assumes "dict_add mode d k v = Inr d'" and "consistent d" and "url v = k"
  shows "consistent d'"
proof (cases "map_of d k")
  case None
  with assms(1) have d': "d' = d @ [(k, v)]" by (simp add: dict_add_def)
  from None have "k \<notin> set (keys d)" using map_of_keys [of d k] by simp
  with assms(2,3) show ?thesis by (simp add: consistent_def d')
next
  case (Some x)
  from Some assms(1) have d': "d' = map (\<lambda>kv. if fst kv = k then (k, v) else kv) d"
    by (cases mode) (simp_all add: dict_add_def)
  with assms(2,3) show ?thesis
    by (simp add: consistent_def keys_overwrite overwrite_consistent)
qed

subsection \<open>One add action\<close>

lemma finish_fields [simp]:
  "intellisenseCache (finish e st src f) = intellisenseCache st"
  "inflight (finish e st src f) = inflight st"
  "disposables (finish e st src f) = Suc (disposables st)"
  "trace (finish e st src f) =
     trace st @ [Register src (content f) (file_url f) (disposables st), Emit UpdateIntellisenseSuccessAction]"
  by (simp_all add: finish_def register_def addExtraLib_def emit_def addIntellisense_map_def Let_def
      split: sum.splits)

lemma finish_keys [simp]:
  "set (keys (current (finish e st src f))) = insert (file_url f) (set (keys (current st)))"
  by (auto simp: finish_def register_def addExtraLib_def emit_def Let_def
      dest: dict_add_keys dict_add_throws_keys split: sum.splits)

lemma finish_consistent:
  "consistent (current st) \<Longrightarrow> consistent (current (finish e st src f))"
  by (auto simp: finish_def register_def addExtraLib_def emit_def Let_def
      dest: dict_add_consistent split: sum.splits)

lemma addIntellisense_cached:
  "intellisenseCache st u = Some c \<Longrightarrow>
   addIntellisense e st u lang =
     finish e (log [Lookup u] st) (determineSource lang) \<lparr>file_url = u, content = c\<rparr>"
  by (simp add: addIntellisense_def get_def Let_def)

lemma addIntellisense_uncached:
  "intellisenseCache st u = None \<Longrightarrow>
   addIntellisense e st u lang = (log [Lookup u, Fetch u] st)\<lparr>inflight := inflight st @ [(u, lang)]\<rparr>"
  by (simp add: addIntellisense_def get_def Let_def)

lemma addIntellisense_fields [simp]:
  "intellisenseCache (addIntellisense e st u lang) = intellisenseCache st"
  "inflight (addIntellisense e st u lang) =
     inflight st @ (if intellisenseCache st u = None then [(u, lang)] else [])"
  "fetches (trace (addIntellisense e st u lang)) =
     fetches (trace st) @ (if intellisenseCache st u = None then [u] else [])"
  "registers (trace (addIntellisense e st u lang)) =
     registers (trace st) @ (if intellisenseCache st u = None then [] else [u])"
  "disposes (trace (addIntellisense e st u lang)) = disposes (trace st)"
  "lookups (trace (addIntellisense e st u lang)) = lookups (trace st) @ [u]"
  "set (keys (current (addIntellisense e st u lang))) =
     set (keys (current st)) \<union> (if intellisenseCache st u = None then {} else {u})"
  by (cases "intellisenseCache st u"; simp add: addIntellisense_cached addIntellisense_uncached)+

lemma addIntellisense_consistent:
  "consistent (current st) \<Longrightarrow> consistent (current (addIntellisense e st u lang))"
  by (cases "intellisenseCache st u")
    (simp_all add: addIntellisense_cached addIntellisense_uncached finish_consistent)

lemma addIntellisense_extends:
  "\<exists>es. trace (addIntellisense e st u lang) = trace st @ es"
  by (cases "intellisenseCache st u")
    (simp_all add: addIntellisense_cached addIntellisense_uncached)

lemma addAll_Nil [simp]: "addAll e st [] lang = st"
  by (simp add: addAll_def)

lemma addAll_Cons [simp]: "addAll e st (u # urls) lang = addAll e (addIntellisense e st u lang) urls lang"
  by (simp add: addAll_def)

lemma addAll_cache [simp]: "intellisenseCache (addAll e st urls lang) = intellisenseCache st"
  by (induction urls arbitrary: st) simp_all

lemma addAll_inflight:
  "inflight (addAll e st urls lang) =
     inflight st @ map (\<lambda>u. (u, lang)) (filter (\<lambda>u. intellisenseCache st u = None) urls)"
  by (induction urls arbitrary: st) simp_all

lemma addAll_fetches:
  "fetches (trace (addAll e st urls lang)) =
     fetches (trace st) @ filter (\<lambda>u. intellisenseCache st u = None) urls"
  by (induction urls arbitrary: st) simp_all

lemma addAll_registers:
  "registers (trace (addAll e st urls lang)) =
     registers (trace st) @ filter (\<lambda>u. intellisenseCache st u \<noteq> None) urls"
  by (induction urls arbitrary: st) simp_all

lemma addAll_disposes [simp]: "disposes (trace (addAll e st urls lang)) = disposes (trace st)"
  by (induction urls arbitrary: st) simp_all

lemma addAll_lookups: "lookups (trace (addAll e st urls lang)) = lookups (trace st) @ urls"
  by (induction urls arbitrary: st) simp_all

lemma addAll_keys:
  "set (keys (current (addAll e st urls lang))) =
     set (keys (current st)) \<union> {u \<in> set urls. intellisenseCache st u \<noteq> None}"
  by (induction urls arbitrary: st) auto

lemma addAll_consistent:
  "consistent (current st) \<Longrightarrow> consistent (current (addAll e st urls lang))"
  by (induction urls arbitrary: st) (simp_all add: addIntellisense_consistent)

lemma addAll_extends: "\<exists>es. trace (addAll e st urls lang) = trace st @ es"
proof (induction urls arbitrary: st)
  case Nil
  show ?case by simp
next
  case (Cons u urls)
  obtain es1 where "trace (addIntellisense e st u lang) = trace st @ es1"
    using addIntellisense_extends by blast
  moreover obtain es2 where
    "trace (addAll e (addIntellisense e st u lang) urls lang) = trace (addIntellisense e st u lang) @ es2"
    using Cons.IH by blast
  ultimately show ?case by simp
qed

subsection \<open>Disposal of the unused files\<close>

lemma disposeFile_fields [simp]:
  "intellisenseCache (disposeFile st f) = intellisenseCache st"
  "inflight (disposeFile st f) = inflight st"
  "disposables (disposeFile st f) = disposables st"
  "trace (disposeFile st f) = trace st @ [Dispose (disposable f)]"
  "current (disposeFile st f) = dict_remove (current st) (url f)"
  by (simp_all add: disposeFile_def)

lemma foldl_disposeFile_fields [simp]:
  "intellisenseCache (foldl disposeFile st fs) = intellisenseCache st"
  "inflight (foldl disposeFile st fs) = inflight st"
  "disposables (foldl disposeFile st fs) = disposables st"
  "trace (foldl disposeFile st fs) = trace st @ map (\<lambda>f. Dispose (disposable f)) fs"
  by (induction fs arbitrary: st) simp_all

lemma foldl_disposeFile_current:
  "current (foldl disposeFile st fs) = filter (\<lambda>kv. fst kv \<notin> url ` set fs) (current st)"
  by (induction fs arbitrary: st) (auto simp: dict_remove_def intro: filter_cong)

lemma disposeUnused_fields [simp]:
  "intellisenseCache (disposeUnused st urls) = intellisenseCache st"
  "inflight (disposeUnused st urls) = inflight st"
  "disposables (disposeUnused st urls) = disposables st"
  "trace (disposeUnused st urls) =
     trace st @ map (\<lambda>f. Dispose (disposable f)) (filesThatCanBeDisposed st urls)"
  by (simp_all add: disposeUnused_def)

lemma disposeUnused_current:
  assumes "consistent (current st)"
  shows "current (disposeUnused st urls) = filter (\<lambda>kv. fst kv \<in> set urls) (current st)"
proof -
  have "\<And>kv. kv \<in> set (current st) \<Longrightarrow>
          (fst kv \<notin> url ` set (filesThatCanBeDisposed st urls)) = (fst kv \<in> set urls)"
  proof -
    fix kv assume kv: "kv \<in> set (current st)"
    with assms have u: "url (snd kv) = fst kv"
      by (simp add: consistent_def list_all_iff)
    show "(fst kv \<notin> url ` set (filesThatCanBeDisposed st urls)) = (fst kv \<in> set urls)"
    proof
      assume a: "fst kv \<notin> url ` set (filesThatCanBeDisposed st urls)"
      show "fst kv \<in> set urls"
      proof (rule ccontr)
        assume "fst kv \<notin> set urls"
        with kv u have "snd kv \<in> set (filesThatCanBeDisposed st urls)"
          by (simp add: filesThatCanBeDisposed_def dict_values_def)
        with u a show False by force
      qed
    next
      assume "fst kv \<in> set urls"
      then show "fst kv \<notin> url ` set (filesThatCanBeDisposed st urls)"
        by (auto simp: filesThatCanBeDisposed_def)
    qed
  qed
  then show ?thesis
    by (simp add: disposeUnused_def foldl_disposeFile_current cong: filter_cong)
qed

lemma keys_filter: "keys (filter (\<lambda>kv. fst kv \<in> A) d) = filter (\<lambda>k. k \<in> A) (keys d)"
  by (induction d) (simp_all add: keys_def)

lemma disposeUnused_keys:
  "consistent (current st) \<Longrightarrow>
   keys (current (disposeUnused st urls)) = filter (\<lambda>k. k \<in> set urls) (keys (current st))"
  by (simp add: disposeUnused_current keys_filter)

lemma disposeUnused_consistent:
  "consistent (current st) \<Longrightarrow> consistent (current (disposeUnused st urls))"
  by (simp add: disposeUnused_current consistent_def keys_filter list_all_iff)

subsection \<open>Dispatching an update\<close>

lemma fetches_map_Emit [simp]: "fetches (map (\<lambda>x. Emit (g x)) xs) = []"
  by (induction xs) simp_all

lemma registers_map_Emit [simp]: "registers (map (\<lambda>x. Emit (g x)) xs) = []"
  by (induction xs) simp_all

lemma disposes_map_Emit [simp]: "disposes (map (\<lambda>x. Emit (g x)) xs) = []"
  by (induction xs) simp_all

lemma lookups_map_Emit [simp]: "lookups (map (\<lambda>x. Emit (g x)) xs) = []"
  by (induction xs) simp_all

lemma fetches_map_Dispose [simp]: "fetches (map (\<lambda>f. Dispose (g f)) fs) = []"
  by (induction fs) simp_all

lemma registers_map_Dispose [simp]: "registers (map (\<lambda>f. Dispose (g f)) fs) = []"
  by (induction fs) simp_all

lemma lookups_map_Dispose [simp]: "lookups (map (\<lambda>f. Dispose (g f)) fs) = []"
  by (induction fs) simp_all

lemma disposes_map_Dispose [simp]: "disposes (map (\<lambda>f. Dispose (g f)) fs) = map g fs"
  by (induction fs) simp_all

lemma dispatch_valid:
  assumes "valid_tab p"
  shows "dispatch e st p =
     addAll e (log (map (\<lambda>file. Emit (AddIntellisenseAction file (language p))) (desired e p))
                 (disposeUnused st (desired e p)))
       (desired e p) (language p)"
proof -
  have f: "\<And>s urls. foldl (addIntellisense_action e) s (map (\<lambda>file. AddIntellisenseAction file (language p)) urls)
             = addAll e s urls (language p)"
    by (simp add: foldl_map addAll_def addIntellisense_action_def)
  from assms show ?thesis
    by (auto simp: valid_tab_def dispatch_def updateIntellisense_def updateIntellisense_map_def
        desired_def additionalLibraries_def Let_def f o_def)
qed

lemma dispatch_invalid:
  "\<not> valid_tab p \<Longrightarrow>
   dispatch e st p = log [Emit (ReportErrorAction ''intellisenseUpdateError'' InvalidTabName)] st"
  by (simp add: valid_tab_def dispatch_def updateIntellisense_def updateIntellisense_map_def
      additionalLibraries_def addIntellisense_action_def)

lemma desired_invalid: "\<not> valid_tab p \<Longrightarrow> desired e p = []"
  by (simp add: valid_tab_def desired_def additionalLibraries_def)

lemma dispatch_cache [simp]: "intellisenseCache (dispatch e st p) = intellisenseCache st"
  by (cases "valid_tab p") (simp_all add: dispatch_valid dispatch_invalid)

lemma dispatch_inflight:
  "inflight (dispatch e st p) =
     inflight st @ map (\<lambda>u. (u, language p)) (filter (\<lambda>u. intellisenseCache st u = None) (desired e p))"
  by (cases "valid_tab p")
    (simp_all add: dispatch_valid dispatch_invalid addAll_inflight desired_invalid)

lemma dispatch_fetches:
  "fetches (trace (dispatch e st p)) =
     fetches (trace st) @ filter (\<lambda>u. intellisenseCache st u = None) (desired e p)"
  by (cases "valid_tab p")
    (simp_all add: dispatch_valid dispatch_invalid addAll_fetches desired_invalid)

lemma dispatch_registers:
  "registers (trace (dispatch e st p)) =
     registers (trace st) @ filter (\<lambda>u. intellisenseCache st u \<noteq> None) (desired e p)"
  by (cases "valid_tab p")
    (simp_all add: dispatch_valid dispatch_invalid addAll_registers desired_invalid)

lemma dispatch_disposes:
  "valid_tab p \<Longrightarrow>
   disposes (trace (dispatch e st p)) =
     disposes (trace st) @ map disposable (filesThatCanBeDisposed st (desired e p))"
  by (simp add: dispatch_valid)

lemma dispatch_keys:
  "valid_tab p \<Longrightarrow> consistent (current st) \<Longrightarrow>
   set (keys (current (dispatch e st p))) =
     (set (keys (current st)) \<inter> set (desired e p))
       \<union> {u \<in> set (desired e p). intellisenseCache st u \<noteq> None}"
  by (auto simp: dispatch_valid addAll_keys disposeUnused_keys)

lemma dispatch_consistent:
  "consistent (current st) \<Longrightarrow> consistent (current (dispatch e st p))"
  by (cases "valid_tab p")
    (simp_all add: dispatch_valid dispatch_invalid addAll_consistent disposeUnused_consistent)

lemma dispatch_extends: "\<exists>es. trace (dispatch e st p) = trace st @ es"
proof (cases "valid_tab p")
  case True
  obtain es where
    "trace (dispatch e st p) =
       trace (log (map (\<lambda>file. Emit (AddIntellisenseAction file (language p))) (desired e p))
                 (disposeUnused st (desired e p))) @ es"
    using addAll_extends dispatch_valid [OF True] by metis
  then show ?thesis by simp
next
  case False
  then show ?thesis by (simp add: dispatch_invalid)
qed

subsection \<open>Responses\<close>

lemma without_length: "i < length xs \<Longrightarrow> length (without i xs) = length xs - 1"
  by (simp add: without_def)

lemma without_mset: "i < length xs \<Longrightarrow> mset (without i xs) + {#xs ! i#} = mset xs"
proof -
  assume "i < length xs"
  then have "xs = take i xs @ xs ! i # drop (Suc i) xs" by (rule id_take_nth_drop)
  then have "mset xs = mset (take i xs @ xs ! i # drop (Suc i) xs)" by simp
  then show ?thesis by (simp add: without_def)
qed

lemma without_set: "i < length xs \<Longrightarrow> insert (xs ! i) (set (without i xs)) = set xs"
proof -
  assume "i < length xs"
  then have "mset (without i xs) + {#xs ! i#} = mset xs" by (rule without_mset)
  then have "set_mset (mset (without i xs) + {#xs ! i#}) = set_mset (mset xs)" by simp
  then show ?thesis by simp
qed

lemma respond_invalid: "\<not> i < length (inflight st) \<Longrightarrow> respond e st (i, r) = st"
  by (simp add: respond_def)

lemma respond_failure:
  "i < length (inflight st) \<Longrightarrow>
   respond e st (i, None) =
     log [Emit UpdateIntellisenseSuccessAction] (st\<lparr>inflight := without i (inflight st)\<rparr>)"
  by (simp add: respond_def emit_def addIntellisense_map_def without_def split: prod.splits)

lemma respond_success:
  "i < length (inflight st) \<Longrightarrow> inflight st ! i = (u, lang) \<Longrightarrow>
   respond e st (i, Some c) =
     finish e (st\<lparr>inflight := without i (inflight st),
                   intellisenseCache := (intellisenseCache st)(u \<mapsto> c)\<rparr>)
       (determineSource lang) \<lparr>file_url = u, content = c\<rparr>"
  by (simp add: respond_def get_response_def without_def)

lemma respond_fetches [simp]: "fetches (trace (respond e st ir)) = fetches (trace st)"
proof (cases ir)
  case (Pair i r)
  show ?thesis
  proof (cases "i < length (inflight st)")
    case True
    obtain u lang where ul: "inflight st ! i = (u, lang)" by (cases "inflight st ! i")
    show ?thesis
      by (cases r) (simp_all add: Pair respond_failure [OF True] respond_success [OF True ul])
  next
    case False
    then show ?thesis by (simp add: Pair respond_invalid)
  qed
qed

lemma respond_disposes [simp]: "disposes (trace (respond e st ir)) = disposes (trace st)"
proof (cases ir)
  case (Pair i r)
  show ?thesis
  proof (cases "i < length (inflight st)")
    case True
    obtain u lang where ul: "inflight st ! i = (u, lang)" by (cases "inflight st ! i")
    show ?thesis
      by (cases r) (simp_all add: Pair respond_failure [OF True] respond_success [OF True ul])
  next
    case False
    then show ?thesis by (simp add: Pair respond_invalid)
  qed
qed

lemma respond_lookups [simp]: "lookups (trace (respond e st ir)) = lookups (trace st)"
proof (cases ir)
  case (Pair i r)
  show ?thesis
  proof (cases "i < length (inflight st)")
    case True
    obtain u lang where ul: "inflight st ! i = (u, lang)" by (cases "inflight st ! i")
    show ?thesis
      by (cases r) (simp_all add: Pair respond_failure [OF True] respond_success [OF True ul])
  next
    case False
    then show ?thesis by (simp add: Pair respond_invalid)
  qed
qed

lemma respond_consistent:
  "consistent (current st) \<Longrightarrow> consistent (current (respond e st ir))"
proof (cases ir)
  case (Pair i r)
  assume c: "consistent (current st)"
  show ?thesis
  proof (cases "i < length (inflight st)")
    case True
    obtain u lang where ul: "inflight st ! i = (u, lang)" by (cases "inflight st ! i")
    show ?thesis using c
      by (cases r)
        (simp_all add: Pair respond_failure [OF True] respond_success [OF True ul] finish_consistent)
  next
    case False
    then show ?thesis using c by (simp add: Pair respond_invalid)
  qed
qed

lemma respond_extends: "\<exists>es. trace (respond e st ir) = trace st @ es"
proof (cases ir)
  case (Pair i r)
  show ?thesis
  proof (cases "i < length (inflight st)")
    case True
    obtain u lang where ul: "inflight st ! i = (u, lang)" by (cases "inflight st ! i")
    show ?thesis
      by (cases r) (simp_all add: Pair respond_failure [OF True] respond_success [OF True ul])
  next
    case False
    then show ?thesis by (simp add: Pair respond_invalid)
  qed
qed

lemma respond_cache_dom: "dom (intellisenseCache st) \<subseteq> dom (intellisenseCache (respond e st ir))"
proof (cases ir)
  case (Pair i r)
  show ?thesis
  proof (cases "i < length (inflight st)")
    case True
    obtain u lang where ul: "inflight st ! i = (u, lang)" by (cases "inflight st ! i")
    show ?thesis
      by (cases r) (auto simp: Pair respond_failure [OF True] respond_success [OF True ul])
  next
    case False
    then show ?thesis by (simp add: Pair respond_invalid)
  qed
qed

text \<open>What a successful response changes.\<close>

lemma respond_success_fields:
  assumes "i < length (inflight st)" and "inflight st ! i = (u, lang)"
  shows "inflight (respond e st (i, Some c)) = without i (inflight st)"
    and "intellisenseCache (respond e st (i, Some c)) = (intellisenseCache st)(u \<mapsto> c)"
    and "registers (trace (respond e st (i, Some c))) = registers (trace st) @ [u]"
    and "set (keys (current (respond e st (i, Some c)))) = insert u (set (keys (current st)))"
    and "trace (respond e st (i, Some c)) =
           trace st @ [Register (determineSource lang) c u (disposables st),
                       Emit UpdateIntellisenseSuccessAction]"
  by (simp_all add: respond_success [OF assms])

lemma respond_failure_fields:
  assumes "i < length (inflight st)"
  shows "inflight (respond e st (i, None)) = without i (inflight st)"
    and "intellisenseCache (respond e st (i, None)) = intellisenseCache st"
    and "current (respond e st (i, None)) = current st"
    and "trace (respond e st (i, None)) = trace st @ [Emit UpdateIntellisenseSuccessAction]"
  by (simp_all add: respond_failure [OF assms])

lemma without_fst_set:
  assumes "i < length xs"
  shows "insert (fst (xs ! i)) (fst ` set (without i xs)) = fst ` set xs"
proof -
  have "fst ` insert (xs ! i) (set (without i xs)) = fst ` set xs"
    by (simp only: without_set [OF assms])
  then show ?thesis by simp
qed

lemma without_fst_mset:
  assumes "i < length xs"
  shows "mset (map fst (without i xs)) + {#fst (xs ! i)#} = mset (map fst xs)"
proof -
  have "image_mset fst (mset (without i xs) + {#xs ! i#}) = image_mset fst (mset xs)"
    by (simp only: without_mset [OF assms])
  then show ?thesis by simp
qed

lemma respond_success_keys:
  "set (keys (current (respond e st (i, Some c)))) \<union> fst ` set (inflight (respond e st (i, Some c)))
     = set (keys (current st)) \<union> fst ` set (inflight st)"
proof (cases "i < length (inflight st)")
  case True
  obtain u lang where ul: "inflight st ! i = (u, lang)" by (cases "inflight st ! i")
  from without_fst_set [OF True] ul
  have "insert u (fst ` set (without i (inflight st))) = fst ` set (inflight st)" by simp
  then show ?thesis by (auto simp: respond_success_fields [OF True ul])
next
  case False
  then show ?thesis by (simp add: respond_invalid)
qed

lemma respond_success_cached:
  "dom (intellisenseCache (respond e st (i, Some c))) \<union> fst ` set (inflight (respond e st (i, Some c)))
     = dom (intellisenseCache st) \<union> fst ` set (inflight st)"
proof (cases "i < length (inflight st)")
  case True
  obtain u lang where ul: "inflight st ! i = (u, lang)" by (cases "inflight st ! i")
  from without_fst_set [OF True] ul
  have "insert u (fst ` set (without i (inflight st))) = fst ` set (inflight st)" by simp
  then show ?thesis by (auto simp: respond_success_fields [OF True ul])
next
  case False
  then show ?thesis by (simp add: respond_invalid)
qed

lemma respond_success_registers:
  "mset (registers (trace (respond e st (i, Some c)))) + mset (map fst (inflight (respond e st (i, Some c))))
     = mset (registers (trace st)) + mset (map fst (inflight st))"
proof (cases "i < length (inflight st)")
  case True
  obtain u lang where ul: "inflight st ! i = (u, lang)" by (cases "inflight st ! i")
  from without_fst_mset [OF True] ul
  have "mset (map fst (without i (inflight st))) + {#u#} = mset (map fst (inflight st))" by simp
  then show ?thesis by (simp add: respond_success_fields [OF True ul] ac_simps)
next
  case False
  then show ?thesis by (simp add: respond_invalid)
qed

subsection \<open>Schedules\<close>

lemma settle_Nil [simp]: "settle e st [] = st"
  by (simp add: settle_def)

lemma settle_Cons [simp]: "settle e st (ir # schedule) = settle e (respond e st ir) schedule"
  by (simp add: settle_def)

lemma settle_fetches [simp]: "fetches (trace (settle e st schedule)) = fetches (trace st)"
  by (induction schedule arbitrary: st) simp_all

lemma settle_disposes [simp]: "disposes (trace (settle e st schedule)) = disposes (trace st)"
  by (induction schedule arbitrary: st) simp_all

lemma settle_lookups [simp]: "lookups (trace (settle e st schedule)) = lookups (trace st)"
  by (induction schedule arbitrary: st) simp_all

lemma settle_consistent:
  "consistent (current st) \<Longrightarrow> consistent (current (settle e st schedule))"
  by (induction schedule arbitrary: st) (simp_all add: respond_consistent)

lemma settle_extends: "\<exists>es. trace (settle e st schedule) = trace st @ es"
proof (induction schedule arbitrary: st)
  case Nil
  show ?case by simp
next
  case (Cons ir schedule)
  obtain es1 where "trace (respond e st ir) = trace st @ es1"
    using respond_extends by blast
  moreover obtain es2 where
    "trace (settle e (respond e st ir) schedule) = trace (respond e st ir) @ es2"
    using Cons.IH by blast
  ultimately show ?case by simp
qed

lemma settle_cache_dom:
  "dom (intellisenseCache st) \<subseteq> dom (intellisenseCache (settle e st schedule))"
proof (induction schedule arbitrary: st)
  case Nil
  show ?case by simp
next
  case (Cons ir schedule)
  show ?case using respond_cache_dom [of st e ir] Cons.IH [of "respond e st ir"] by auto
qed

lemma settle_success_keys:
  "all_succeed schedule \<Longrightarrow>
   set (keys (current (settle e st schedule))) \<union> fst ` set (inflight (settle e st schedule))
     = set (keys (current st)) \<union> fst ` set (inflight st)"
proof (induction schedule arbitrary: st)
  case Nil
  show ?case by simp
next
  case (Cons ir schedule)
  obtain i r where ir: "ir = (i, r)" by (cases ir)
  from Cons.prems obtain c where r: "r = Some c" by (auto simp: all_succeed_def ir)
  from Cons.prems have "all_succeed schedule" by (simp add: all_succeed_def)
  from Cons.IH [OF this, of "respond e st ir"] show ?case
    by (simp add: ir r respond_success_keys)
qed

lemma settle_success_cached:
  "all_succeed schedule \<Longrightarrow>
   dom (intellisenseCache (settle e st schedule)) \<union> fst ` set (inflight (settle e st schedule))
     = dom (intellisenseCache st) \<union> fst ` set (inflight st)"
proof (induction schedule arbitrary: st)
  case Nil
  show ?case by simp
next
  case (Cons ir schedule)
  obtain i r where ir: "ir = (i, r)" by (cases ir)
  from Cons.prems obtain c where r: "r = Some c" by (auto simp: all_succeed_def ir)
  from Cons.prems have "all_succeed schedule" by (simp add: all_succeed_def)
  from Cons.IH [OF this, of "respond e st ir"] show ?case
    by (simp add: ir r respond_success_cached)
qed

lemma settle_success_registers:
  "all_succeed schedule \<Longrightarrow>
   mset (registers (trace (settle e st schedule))) + mset (map fst (inflight (settle e st schedule)))
     = mset (registers (trace st)) + mset (map fst (inflight st))"
proof (induction schedule arbitrary: st)
  case Nil
  show ?case by simp
next
  case (Cons ir schedule)
  obtain i r where ir: "ir = (i, r)" by (cases ir)
  from Cons.prems obtain c where r: "r = Some c" by (auto simp: all_succeed_def ir)
  from Cons.prems have "all_succeed schedule" by (simp add: all_succeed_def)
  from Cons.IH [OF this, of "respond e st ir"]
  have "mset (registers (trace (settle e (respond e st ir) schedule)))
          + mset (map fst (inflight (settle e (respond e st ir) schedule)))
        = mset (registers (trace (respond e st ir))) + mset (map fst (inflight (respond e st ir)))" .
  also have "\<dots> = mset (registers (trace st)) + mset (map fst (inflight st))"
    unfolding ir r by (rule respond_success_registers)
  finally show ?case by (simp only: settle_Cons)
qed

subsection \<open>Reachable states\<close>

lemma reachable_consistent: "reachable e st \<Longrightarrow> consistent (current st)"
proof (induction rule: reachable.induct)
  case (start cache)
  show ?case by (simp add: initial_def consistent_def keys_def)
next
  case (update st p)
  then show ?case by (simp add: dispatch_consistent)
next
  case (response st ir)
  then show ?case by (simp add: respond_consistent)
qed

lemma reachable_settle: "reachable e st \<Longrightarrow> reachable e (settle e st schedule)"
  by (induction schedule arbitrary: st) (simp_all add: reachable.response)

subsection \<open>A pass as a whole\<close>

lemma since_append: "trace st' = trace st @ es \<Longrightarrow> since st st' = es"
  by (simp add: since_def)

lemma since_fetches:
  "\<exists>es. trace st' = trace st @ es \<Longrightarrow> fetches (trace st') = fetches (trace st) @ xs \<Longrightarrow>
   fetches (since st st') = xs"
  by (auto simp: since_def)

lemma since_disposes:
  "\<exists>es. trace st' = trace st @ es \<Longrightarrow> disposes (trace st') = disposes (trace st) @ xs \<Longrightarrow>
   disposes (since st st') = xs"
  by (auto simp: since_def)

lemma since_registers:
  "\<exists>es. trace st' = trace st @ es \<Longrightarrow> registers (trace st') = registers (trace st) @ xs \<Longrightarrow>
   registers (since st st') = xs"
  by (auto simp: since_def)

lemma since_registers_mset:
  "\<exists>es. trace st' = trace st @ es \<Longrightarrow>
   mset (registers (trace st')) = mset (registers (trace st)) + M \<Longrightarrow>
   mset (registers (since st st')) = M"
  by (auto simp: since_def)

lemma pass_extends: "\<exists>es. trace (settle e (dispatch e st p) schedule) = trace st @ es"
proof -
  obtain es1 where "trace (dispatch e st p) = trace st @ es1"
    using dispatch_extends by blast
  moreover obtain es2 where
    "trace (settle e (dispatch e st p) schedule) = trace (dispatch e st p) @ es2"
    using settle_extends by blast
  ultimately show ?thesis by simp
qed

lemma partition_set:
  "{u \<in> set xs. P u} \<union> set (filter (\<lambda>u. \<not> P u) xs) = set xs"
  by auto

lemma pass_keys:
  assumes c: "consistent (current st)" and s: "inflight st = []" and v: "valid_tab p"
    and a: "all_succeed schedule" and f: "inflight (settle e (dispatch e st p) schedule) = []"
  shows "set (keys (current (settle e (dispatch e st p) schedule))) = set (desired e p)"
proof -
  have "set (keys (current (settle e (dispatch e st p) schedule)))
          = set (keys (current (dispatch e st p))) \<union> fst ` set (inflight (dispatch e st p))"
    using settle_success_keys [OF a, of e "dispatch e st p"] f by simp
  also have "\<dots> = set (desired e p)"
    by (auto simp: dispatch_keys [OF v c] dispatch_inflight s image_iff)
  finally show ?thesis .
qed

lemma pass_cached:
  assumes s: "inflight st = []"
    and a: "all_succeed schedule" and f: "inflight (settle e (dispatch e st p) schedule) = []"
  shows "set (desired e p) \<subseteq> dom (intellisenseCache (settle e (dispatch e st p) schedule))"
proof -
  have "dom (intellisenseCache (settle e (dispatch e st p) schedule))
          = dom (intellisenseCache (dispatch e st p)) \<union> fst ` set (inflight (dispatch e st p))"
    using settle_success_cached [OF a, of e "dispatch e st p"] f by simp
  then show ?thesis
    by (auto simp: dispatch_inflight s image_iff)
qed

lemma pass_registers:
  assumes s: "inflight st = []"
    and a: "all_succeed schedule" and f: "inflight (settle e (dispatch e st p) schedule) = []"
  shows "mset (registers (since st (settle e (dispatch e st p) schedule))) = mset (desired e p)"
proof -
  have "mset (registers (trace (settle e (dispatch e st p) schedule)))
          = mset (registers (trace (dispatch e st p))) + mset (map fst (inflight (dispatch e st p)))"
    using settle_success_registers [OF a, of e "dispatch e st p"] f by simp
  also have "\<dots> = mset (registers (trace st)) + mset (desired e p)"
    by (simp add: dispatch_registers dispatch_inflight s o_def)
  finally show ?thesis
    using since_registers_mset [OF pass_extends] by blast
qed

lemma pass_fetches:
  "fetches (since st (settle e (dispatch e st p) schedule))
     = filter (\<lambda>u. intellisenseCache st u = None) (desired e p)"
  by (rule since_fetches [OF pass_extends]) (simp add: dispatch_fetches)

lemma pass_disposes:
  "valid_tab p \<Longrightarrow>
   disposes (since st (settle e (dispatch e st p) schedule))
     = map disposable (filesThatCanBeDisposed st (desired e p))"
  by (rule since_disposes [OF pass_extends]) (simp add: dispatch_disposes)

lemma pass_consistent:
  "consistent (current st) \<Longrightarrow> consistent (current (settle e (dispatch e st p) schedule))"
  by (simp add: settle_consistent dispatch_consistent)

subsection \<open>An invalid tab name\<close>



subsection \<open>Two passes\<close>

lemma consistent_length:
  assumes "consistent d" and "set (keys d) = A"
  shows "length d = card A"
proof -
  from assms(1) have "distinct (keys d)" by (simp add: consistent_def)
  then have "length (keys d) = card (set (keys d))" by (simp add: distinct_card)
  with assms(2) show ?thesis by (simp add: keys_def)
qed

lemma all_disposed:
  assumes "consistent (current st)" and "set (keys (current st)) \<inter> set urls = {}"
  shows "filesThatCanBeDisposed st urls = dict_values (current st)"
proof -
  have "\<And>kv. kv \<in> set (current st) \<Longrightarrow> url (snd kv) \<notin> set urls"
  proof -
    fix kv assume kv: "kv \<in> set (current st)"
    with assms(1) have "url (snd kv) = fst kv" by (simp add: consistent_def list_all_iff)
    moreover from kv have "fst kv \<in> set (keys (current st))" by (simp add: keys_def)
    ultimately show "url (snd kv) \<notin> set urls" using assms(2) by auto
  qed
  then show ?thesis
    by (simp add: filesThatCanBeDisposed_def dict_values_def filter_map o_def cong: filter_cong)
qed

text \<open>Every pass can be settled: answering the first request in flight often enough.\<close>

lemma respond_inflight_length:
  "length (inflight (respond e st (0, r))) = length (inflight st) - 1"
proof (cases "0 < length (inflight st)")
  case True
  obtain u lang where ul: "inflight st ! 0 = (u, lang)" by (cases "inflight st ! 0")
  show ?thesis
    by (cases r)
      (simp_all add: respond_failure [OF True] respond_success [OF True ul] without_length [OF True])
next
  case False
  then show ?thesis by (simp add: respond_invalid)
qed

lemma settle_replicate:
  "length (inflight (settle e st (replicate n (0, r)))) = length (inflight st) - n"
  by (induction n arbitrary: st) (simp_all add: respond_inflight_length)

lemma settle_all:
  "inflight (settle e st (replicate (length (inflight st)) (0, Some c))) = []
   \<and> all_succeed (replicate (length (inflight st)) (0, Some c))"
  using settle_replicate [of e st "length (inflight st)" "Some c"]
  by (simp add: all_succeed_def list_all_iff)



subsection \<open>The same payload again\<close>

lemma none_disposed:
  assumes "consistent (current st)" and "set (keys (current st)) \<subseteq> set urls"
  shows "filesThatCanBeDisposed st urls = []"
proof -
  have "\<And>kv. kv \<in> set (current st) \<Longrightarrow> url (snd kv) \<in> set urls"
  proof -
    fix kv assume kv: "kv \<in> set (current st)"
    with assms(1) have "url (snd kv) = fst kv" by (simp add: consistent_def list_all_iff)
    moreover from kv have "fst kv \<in> set (keys (current st))" by (simp add: keys_def)
    ultimately show "url (snd kv) \<in> set urls" using assms(2) by auto
  qed
  then show ?thesis
    by (simp add: filesThatCanBeDisposed_def dict_values_def filter_map o_def cong: filter_cong)
qed

lemma none_in_need:
  "set urls \<subseteq> set (keys (current st)) \<Longrightarrow> urlsStillInNeedOfFetching st urls = []"
  by (auto simp: urlsStillInNeedOfFetching_def dict_get_def map_of_keys filter_empty_conv)

text \<open>
  The same payload dispatched again after its pass has settled with every request
  answered: the list \<open>urlsStillInNeedOfFetching\<close> is empty, nothing is fetched and
  nothing is disposed, and yet every locator is registered once more.
\<close>

lemma repeated_pass:
  fixes e :: env and st0 :: state and p :: payload and s :: "(nat \<times> string option) list"
  defines "st1 \<equiv> settle e (dispatch e st0 p) s"
  defines "st2 \<equiv> dispatch e st1 p"
  assumes r: "reachable e st0" and i0: "inflight st0 = []" and v: "valid_tab p"
    and a: "all_succeed s" and i1: "inflight st1 = []"
  shows "urlsStillInNeedOfFetching st1 (desired e p) = []"
    and "inflight st2 = []"
    and "fetches (since st1 st2) = []"
    and "disposes (since st1 st2) = []"
    and "registers (since st1 st2) = desired e p"
proof -
  have c0: "consistent (current st0)" using r by (rule reachable_consistent)
  have c1: "consistent (current st1)" unfolding st1_def using c0 by (rule pass_consistent)
  have k1: "set (keys (current st1)) = set (desired e p)"
    unfolding st1_def using c0 i0 v a i1 [unfolded st1_def] by (rule pass_keys)
  have "set (desired e p) \<subseteq> dom (intellisenseCache st1)"
    unfolding st1_def using i0 a i1 [unfolded st1_def] by (rule pass_cached)
  then have cached: "\<And>u. u \<in> set (desired e p) \<Longrightarrow> intellisenseCache st1 u \<noteq> None"
    by auto
  then have f0: "filter (\<lambda>u. intellisenseCache st1 u = None) (desired e p) = []"
    by (simp add: filter_empty_conv)
  have f1: "filter (\<lambda>u. intellisenseCache st1 u \<noteq> None) (desired e p) = desired e p"
    by (intro filter_True ballI) (rule cached)
  show "urlsStillInNeedOfFetching st1 (desired e p) = []"
    using k1 by (simp add: none_in_need)
  show "inflight st2 = []"
    by (simp add: st2_def dispatch_inflight i1 f0)
  show "fetches (since st1 st2) = []"
    unfolding st2_def by (rule since_fetches [OF dispatch_extends]) (simp add: dispatch_fetches f0)
  show "disposes (since st1 st2) = []"
    unfolding st2_def
    by (rule since_disposes [OF dispatch_extends])
      (simp add: dispatch_disposes [OF v] none_disposed [OF c1] k1)
  show "registers (since st1 st2) = desired e p"
    unfolding st2_def by (rule since_registers [OF dispatch_extends]) (simp only: dispatch_registers f1)
qed

text \<open>
  C1. The claim wants a second pass with the same locators to fetch nothing, dispose
  nothing and register nothing. The effect returns \<open>urlsToInclude\<close>, not the list
  \<open>urlsStillInNeedOfFetching\<close> it has just computed, so an add action is emitted for
  every locator again: after the script pass has settled, the same payload fetches
  nothing and disposes nothing, and calls \<open>addExtraLib\<close> for both locators although
  none is still in need of fetching.
\<close>

theorem second_pass_registers_again:
  "urlsStillInNeedOfFetching after_script (desired env0 script_payload) = []
   \<and> fetches (since after_script (dispatch env0 after_script script_payload)) = []
   \<and> disposes (since after_script (dispatch env0 after_script script_payload)) = []
   \<and> registers (since after_script (dispatch env0 after_script script_payload))
       = [''https://unpkg.com/@types/jquery/index.d.ts'', ''https://o/libs/auth-helpers.d.ts'']"
  by code_simp

subsection \<open>Failures\<close>

lemma respond_keys_mono:
  "set (keys (current st)) \<subseteq> set (keys (current (respond e st ir)))"
proof (cases ir)
  case (Pair i r)
  show ?thesis
  proof (cases "i < length (inflight st)")
    case True
    obtain u lang where ul: "inflight st ! i = (u, lang)" by (cases "inflight st ! i")
    show ?thesis
      by (cases r) (auto simp: Pair respond_failure [OF True] respond_success [OF True ul])
  next
    case False
    then show ?thesis by (simp add: Pair respond_invalid)
  qed
qed

lemma failure_emits_success:
  "i < length (inflight st) \<Longrightarrow>
   since st (respond e st (i, None)) = [Emit UpdateIntellisenseSuccessAction]"
  by (simp add: respond_failure since_def)

text \<open>
  A failed response removes its request and changes nothing else; the locators that
  were in the cache when the update was dispatched are registered whatever happens
  to the requests.
\<close>

lemma settle_keys_mono:
  "set (keys (current st)) \<subseteq> set (keys (current (settle e st schedule)))"
proof (induction schedule arbitrary: st)
  case Nil
  show ?case by simp
next
  case (Cons ir schedule)
  show ?case using respond_keys_mono [of st e ir] Cons.IH [of "respond e st ir"] by auto
qed

lemma cached_registered_whatever_fails:
  assumes "valid_tab p" and "consistent (current st)"
    and "u \<in> set (desired e p)" and "intellisenseCache st u \<noteq> None"
  shows "u \<in> set (keys (current (settle e (dispatch e st p) schedule)))"
proof -
  from assms have "u \<in> set (keys (current (dispatch e st p)))"
    by (simp add: dispatch_keys)
  with settle_keys_mono [of "dispatch e st p" e schedule] show ?thesis by auto
qed

text \<open>
  No history contains a \<open>ReportErrorAction\<close> of \<open>_addIntellisense\<close>: the effect never
  emits the failure event that the \<open>catch\<close> builds.
\<close>

lemma emitted_map_Emit [simp]: "emitted (map (\<lambda>x. Emit (g x)) xs) = map g xs"
  by (induction xs) simp_all

lemma emitted_map_Dispose [simp]: "emitted (map (\<lambda>f. Dispose (g f)) fs) = []"
  by (induction fs) simp_all

lemma addIntellisense_no_load_error:
  "no_load_error st \<Longrightarrow> no_load_error (addIntellisense e st u lang)"
  by (cases "intellisenseCache st u")
    (simp_all add: no_load_error_def load_error_def addIntellisense_cached addIntellisense_uncached)

lemma addAll_no_load_error:
  "no_load_error st \<Longrightarrow> no_load_error (addAll e st urls lang)"
  by (induction urls arbitrary: st) (simp_all add: addIntellisense_no_load_error)

lemma dispatch_no_load_error:
  "no_load_error st \<Longrightarrow> no_load_error (dispatch e st p)"
proof (cases "valid_tab p")
  case True
  assume "no_load_error st"
  then have "no_load_error
      (log (map (\<lambda>file. Emit (AddIntellisenseAction file (language p))) (desired e p))
         (disposeUnused st (desired e p)))"
    by (auto simp: no_load_error_def load_error_def list_all_iff)
  then show ?thesis by (simp add: dispatch_valid [OF True] addAll_no_load_error)
next
  case False
  assume "no_load_error st"
  with False show ?thesis
    by (simp add: dispatch_invalid no_load_error_def load_error_def)
qed

lemma respond_no_load_error:
  "no_load_error st \<Longrightarrow> no_load_error (respond e st ir)"
proof (cases ir)
  case (Pair i r)
  assume n: "no_load_error st"
  show ?thesis
  proof (cases "i < length (inflight st)")
    case True
    obtain u lang where ul: "inflight st ! i = (u, lang)" by (cases "inflight st ! i")
    show ?thesis using n
      by (cases r)
        (simp_all add: Pair respond_failure [OF True] respond_success [OF True ul]
          no_load_error_def load_error_def)
  next
    case False
    then show ?thesis using n by (simp add: Pair respond_invalid)
  qed
qed

lemma never_load_error: "reachable e st \<Longrightarrow> no_load_error st"
proof (induction rule: reachable.induct)
  case (start cache)
  show ?case by (simp add: initial_def no_load_error_def)
next
  case (update st p)
  then show ?case by (simp add: dispatch_no_load_error)
next
  case (response st ir)
  then show ?case by (simp add: respond_no_load_error)
qed

text \<open>
  C4. The claim wants a failure surfaced as a failure event of its own. The request
  for the first locator fails and the second is answered: the second locator is
  registered and the first has no entry, but the \<open>ReportErrorAction\<close> that the
  \<open>catch\<close> of \<open>_addIntellisense\<close> builds is replaced by the \<open>map\<close> of the effect, and
  both add actions end in \<open>UpdateIntellisenseSuccessAction\<close>.
\<close>

theorem failure_reported_as_success:
  "emitted (trace (settle env0 (dispatch env0 (initial Map.empty) script_payload) failing_answers))
     = [AddIntellisenseAction ''https://unpkg.com/@types/jquery/index.d.ts'' ''typescript'',
        AddIntellisenseAction ''https://o/libs/auth-helpers.d.ts'' ''typescript'',
        UpdateIntellisenseSuccessAction,
        UpdateIntellisenseSuccessAction]
   \<and> keys (current (settle env0 (dispatch env0 (initial Map.empty) script_payload) failing_answers))
     = [''https://o/libs/auth-helpers.d.ts'']
   \<and> caught (Inl (RequestFailed ''https://unpkg.com/@types/jquery/index.d.ts''))
     = Inl (ReportErrorAction ''intellisenseLoadError''
              (RequestFailed ''https://unpkg.com/@types/jquery/index.d.ts''))
   \<and> addIntellisense_map (caught (Inl (RequestFailed ''https://unpkg.com/@types/jquery/index.d.ts'')))
     = UpdateIntellisenseSuccessAction"
  by code_simp

subsection \<open>The cache\<close>

text \<open>
  C5. For a url that is not in the cache, \<open>_get\<close> sends a request. With a text as
  the answer, the text is stored under the url and the file is handed on; with a
  failure the subscriber gets the error, the cache is left as it was, and the next
  \<open>_get\<close> for the url sends a request again. The same holds for the response to a
  request in flight.
\<close>

theorem get_not_cached:
  assumes "intellisenseCache st u = None"
  shows "get st u = (log [Lookup u, Fetch u] st, Request u)
       \<and> get_settled st u (Some c)
           = ((log [Lookup u, Fetch u] st)\<lparr>intellisenseCache := (intellisenseCache st)(u \<mapsto> c)\<rparr>,
              Inr \<lparr>file_url = u, content = c\<rparr>)
       \<and> get_settled st u None = (log [Lookup u, Fetch u] st, Inl (RequestFailed u))
       \<and> intellisenseCache (fst (get_settled st u None)) = intellisenseCache st
       \<and> get (fst (get_settled st u None)) u
           = (log [Lookup u, Fetch u] (fst (get_settled st u None)), Request u)
       \<and> (\<forall>i. i < length (inflight st) \<longrightarrow>
             intellisenseCache (respond e st (i, None)) = intellisenseCache st)
       \<and> (\<forall>i lang. i < length (inflight st) \<and> inflight st ! i = (u, lang) \<longrightarrow>
             intellisenseCache (respond e st (i, Some c)) = (intellisenseCache st)(u \<mapsto> c))"
  using assms
  by (simp add: get_def get_settled_def get_response_def respond_failure_fields
      respond_success_fields)

theorem get_not_cached_witness:
  "intellisenseCache (initial Map.empty) jquery_url = None
   \<and> snd (get (initial Map.empty) jquery_url) = Request jquery_url
   \<and> fetches (trace (fst (get (initial Map.empty) jquery_url))) = [jquery_url]
   \<and> snd (get_settled (initial Map.empty) jquery_url None) = Inl (RequestFailed jquery_url)
   \<and> intellisenseCache (fst (get_settled (initial Map.empty) jquery_url None)) jquery_url = None
   \<and> intellisenseCache (fst (get_settled (initial Map.empty) jquery_url (Some ''A''))) jquery_url = Some ''A''
   \<and> intellisenseCache (dispatch env0 (initial Map.empty) script_payload) jquery_url = None
   \<and> inflight (dispatch env0 (initial Map.empty) script_payload) ! 0 = (jquery_url, ''typescript'')
   \<and> intellisenseCache (respond env0 (dispatch env0 (initial Map.empty) script_payload) (0, None))
         jquery_url = None
   \<and> intellisenseCache (respond env0 (dispatch env0 (initial Map.empty) script_payload) (0, Some ''A''))
         jquery_url = Some ''A''"
proof -
  have h: "intellisenseCache (initial Map.empty) jquery_url = None"
    by (simp add: initial_def)
  have g: "intellisenseCache (dispatch env0 (initial Map.empty) script_payload) jquery_url = None"
    by (simp add: initial_def)
  have l: "0 < length (inflight (dispatch env0 (initial Map.empty) script_payload))"
    by code_simp
  have n: "inflight (dispatch env0 (initial Map.empty) script_payload) ! 0 = (jquery_url, ''typescript'')"
    by code_simp
  have a: "snd (get (initial Map.empty) jquery_url) = Request jquery_url
      \<and> fetches (trace (fst (get (initial Map.empty) jquery_url))) = [jquery_url]
      \<and> snd (get_settled (initial Map.empty) jquery_url None) = Inl (RequestFailed jquery_url)
      \<and> intellisenseCache (fst (get_settled (initial Map.empty) jquery_url None)) jquery_url = None
      \<and> intellisenseCache (fst (get_settled (initial Map.empty) jquery_url (Some ''A''))) jquery_url = Some ''A''"
    using get_not_cached [OF h, of "''A''" env0] h by (simp add: initial_def)
  have b: "intellisenseCache (respond env0 (dispatch env0 (initial Map.empty) script_payload) (0, None))
             jquery_url = None
      \<and> intellisenseCache (respond env0 (dispatch env0 (initial Map.empty) script_payload) (0, Some ''A''))
             jquery_url = Some ''A''"
    using get_not_cached [OF g, of "''A''" env0] g l n by simp
  from h g n a b show ?thesis by blast
qed

lemma step_extends:
  "\<exists>es. trace (step e st x) = trace st @ es \<and> set (fetches es) \<inter> dom (intellisenseCache st) = {}"
proof (cases x)
  case (Update p)
  obtain es where es: "trace (dispatch e st p) = trace st @ es"
    using dispatch_extends by blast
  then have "fetches (trace st) @ fetches es
               = fetches (trace st) @ filter (\<lambda>u. intellisenseCache st u = None) (desired e p)"
    using dispatch_fetches [of e st p] by simp
  then have "fetches es = filter (\<lambda>u. intellisenseCache st u = None) (desired e p)" by simp
  then have "set (fetches es) \<inter> dom (intellisenseCache st) = {}" by auto
  with es show ?thesis by (auto simp: Update)
next
  case (Response i r)
  obtain es where es: "trace (respond e st (i, r)) = trace st @ es"
    using respond_extends by blast
  then have "fetches (trace st) @ fetches es = fetches (trace st)"
    using respond_fetches [of e st "(i, r)"] by simp
  then have "fetches es = []" by simp
  with es show ?thesis by (auto simp: Response)
qed

lemma step_cache_dom: "dom (intellisenseCache st) \<subseteq> dom (intellisenseCache (step e st x))"
  by (cases x) (simp_all add: respond_cache_dom)

lemma run_Nil [simp]: "run e st [] = st"
  by (simp add: run_def)

lemma run_Cons [simp]: "run e st (x # inputs) = run e (step e st x) inputs"
  by (simp add: run_def)

lemma run_cache_dom: "dom (intellisenseCache st) \<subseteq> dom (intellisenseCache (run e st inputs))"
proof (induction inputs arbitrary: st)
  case Nil
  show ?case by simp
next
  case (Cons x inputs)
  show ?case using step_cache_dom [of st e x] Cons.IH [of "step e st x"] by auto
qed

lemma run_extends:
  "\<exists>es. trace (run e st inputs) = trace st @ es \<and> set (fetches es) \<inter> dom (intellisenseCache st) = {}"
proof (induction inputs arbitrary: st)
  case Nil
  show ?case by simp
next
  case (Cons x inputs)
  obtain es1 where es1: "trace (step e st x) = trace st @ es1"
    and f1: "set (fetches es1) \<inter> dom (intellisenseCache st) = {}"
    using step_extends by blast
  obtain es2 where es2: "trace (run e (step e st x) inputs) = trace (step e st x) @ es2"
    and f2: "set (fetches es2) \<inter> dom (intellisenseCache (step e st x)) = {}"
    using Cons.IH by blast
  from f2 step_cache_dom [of st e x]
  have "set (fetches es2) \<inter> dom (intellisenseCache st) = {}" by blast
  with f1 have "set (fetches (es1 @ es2)) \<inter> dom (intellisenseCache st) = {}" by auto
  moreover from es1 es2 have "trace (run e st (x # inputs)) = trace st @ (es1 @ es2)" by simp
  ultimately show ?case by blast
qed

text \<open>
  C8. For a url that is in the cache, \<open>_get\<close> returns the stored content at once: no
  request is sent and the cache is not changed. Whatever updates and responses
  follow, no request for the url is sent, the url stays in the cache, and \<open>_get\<close>
  still answers from the cache.
\<close>

theorem cached_never_fetched:
  assumes "intellisenseCache st u = Some c"
  shows "get st u = (log [Lookup u] st, Of \<lparr>file_url = u, content = c\<rparr>)
       \<and> get_settled st u r = (log [Lookup u] st, Inr \<lparr>file_url = u, content = c\<rparr>)
       \<and> intellisenseCache (fst (get st u)) = intellisenseCache st
       \<and> fetches (since st (fst (get st u))) = []
       \<and> u \<notin> set (fetches (since st (run e st inputs)))
       \<and> intellisenseCache (run e st inputs) u \<noteq> None
       \<and> (\<exists>c'. get (run e st inputs) u
                   = (log [Lookup u] (run e st inputs), Of \<lparr>file_url = u, content = c'\<rparr>))"
proof -
  obtain es where es: "trace (run e st inputs) = trace st @ es"
    and f: "set (fetches es) \<inter> dom (intellisenseCache st) = {}"
    using run_extends by blast
  from es have "since st (run e st inputs) = es" by (rule since_append)
  with f assms have a: "u \<notin> set (fetches (since st (run e st inputs)))" by auto
  from assms run_cache_dom [of st e inputs]
  have b: "intellisenseCache (run e st inputs) u \<noteq> None" by auto
  from b obtain c' where "intellisenseCache (run e st inputs) u = Some c'" by auto
  then have d: "\<exists>c'. get (run e st inputs) u
                   = (log [Lookup u] (run e st inputs), Of \<lparr>file_url = u, content = c'\<rparr>)"
    by (simp add: get_def)
  from assms a b d show ?thesis
    by (simp add: get_def get_settled_def since_def)
qed

theorem cached_never_fetched_witness:
  "intellisenseCache after_script jquery_url = Some ''A''
   \<and> jquery_url \<notin> set (fetches (since after_script (run env0 after_script away_and_back)))
   \<and> jquery_url \<notin> set (keys (current (run env0 after_script (butlast away_and_back))))
   \<and> jquery_url \<in> set (keys (current (run env0 after_script away_and_back)))"
proof -
  have h: "intellisenseCache after_script jquery_url = Some ''A''" by code_simp
  have k1: "jquery_url \<notin> set (keys (current (run env0 after_script (butlast away_and_back))))"
    by code_simp
  have k2: "jquery_url \<in> set (keys (current (run env0 after_script away_and_back)))"
    by code_simp
  from cached_never_fetched [OF h, of None env0 away_and_back] h k1 k2 show ?thesis
    by blast
qed

subsection \<open>Requests in flight for the same locator\<close>


lemma count_list_distinct: "distinct xs \<Longrightarrow> x \<in> set xs \<Longrightarrow> count_list xs x = 1"
  by (induction xs) (auto simp: count_list_0_iff)

lemma count_list_filter_distinct:
  "distinct xs \<Longrightarrow> x \<in> set xs \<Longrightarrow> P x \<Longrightarrow> count_list (filter P xs) x = 1"
  by (simp add: count_list_distinct)

lemma mset_cached_partition:
  "mset (filter (\<lambda>v. m v \<noteq> None) xs) + mset (filter (\<lambda>v. m v = None) xs) = mset xs"
  by (induction xs) auto



end
